theory Spec2Isabelle
  imports Main
begin

section \<open>The example program \<open>examples/vulnerable_code.c\<close>\<close>

text \<open>
  The program has two functions, \<open>copy_user_input\<close> and \<open>main\<close>, two automatic
  arrays (\<open>char buffer[64]\<close> and \<open>char input[256]\<close>) and three calls into the C
  library (\<open>strcpy\<close>, \<open>printf\<close>, \<open>fgets\<close>), which are modelled after ISO C.

  A C \<open>char\<close> is a byte, modelled by \<^typ>\<open>char\<close>; an array object is the list of its
  bytes, and its declared capacity is the length of that list. Every access to an array
  is bounds checked in the model: an access outside the object is undefined behaviour
  in C, and is the outcome \<open>Inl\<close> here, naming the first offending access. A run that
  stays inside its objects is \<open>Inr\<close> of its result.
\<close>

subsection \<open>Bytes, objects and outcomes\<close>

abbreviation NUL :: char where
  "NUL \<equiv> CHR 0x00"

abbreviation newline :: char where
  "newline \<equiv> CHR 0x0A"

datatype undefined_behaviour = OutOfBoundsRead nat | OutOfBoundsWrite nat

text \<open>
  An automatic array without initialiser holds indeterminate bytes. They are a parameter
  of the model: \<open>junk i\<close> is the byte that happens to be at index \<open>i\<close> when the array
  comes to life.
\<close>

type_synonym indeterminate = "nat \<Rightarrow> char"

definition auto_array :: "nat \<Rightarrow> indeterminate \<Rightarrow> char list" where
  "auto_array n junk = map junk [0..<n]"

text \<open>The two streams the program touches.\<close>

record world =
  stdin :: "char list"
  stdout :: "char list"

text \<open>
  The length of the C string that starts an array: the number of bytes before the
  first terminator.
\<close>

definition strlen :: "char list \<Rightarrow> nat" where
  "strlen s = length (takeWhile (\<lambda>c. c \<noteq> NUL) s)"

subsection \<open>The library calls\<close>

text \<open>
  \<open>strcpy(dest, src)\<close> (ISO C 7.24.2.3) copies the string at \<open>src\<close>, terminator
  included, into \<open>dest\<close>, byte by byte from index 0. It is not given the capacity of
  \<open>dest\<close> and tests nothing but the byte it has just read. \<open>strcpy_from i\<close> is the
  loop at index \<open>i\<close>.
\<close>

function strcpy_from :: "nat \<Rightarrow> char list \<Rightarrow> char list \<Rightarrow> undefined_behaviour + char list" where
  "strcpy_from i dest src =
     (if length src \<le> i then Inl (OutOfBoundsRead i)
      else if length dest \<le> i then Inl (OutOfBoundsWrite i)
      else if src ! i = NUL then Inr (dest[i := NUL])
      else strcpy_from (Suc i) (dest[i := src ! i]) src)"
  by pat_completeness auto
termination
  by (relation "measure (\<lambda>(i, dest, src). length src - i)") auto

definition strcpy :: "char list \<Rightarrow> char list \<Rightarrow> undefined_behaviour + char list" where
  "strcpy dest src = strcpy_from 0 dest src"

text \<open>
  The \<open>%s\<close> conversion of \<open>printf\<close> (ISO C 7.21.6.1) writes the bytes of its argument
  up to, and not including, the terminator. \<open>string_at mem i\<close> reads them from index
  \<open>i\<close> of the object \<open>mem\<close>.
\<close>

function string_at :: "char list \<Rightarrow> nat \<Rightarrow> undefined_behaviour + char list" where
  "string_at mem i =
     (if length mem \<le> i then Inl (OutOfBoundsRead i)
      else if mem ! i = NUL then Inr []
      else (case string_at mem (Suc i) of
              Inl e \<Rightarrow> Inl e
            | Inr s \<Rightarrow> Inr (mem ! i # s)))"
  by pat_completeness auto
termination
  by (relation "measure (\<lambda>(mem, i). length mem - i)") auto

text \<open>
  \<open>printf\<close> with a format that has no conversion, and \<open>printf\<close> with a format of the
  shape \<open>pre%spost\<close>. The program ignores what \<open>printf\<close> returns.
\<close>

definition printf_lit :: "string \<Rightarrow> world \<Rightarrow> world" where
  "printf_lit fmt w = w\<lparr>stdout := stdout w @ fmt\<rparr>"

definition printf_s :: "string \<Rightarrow> string \<Rightarrow> char list \<Rightarrow> world \<Rightarrow> undefined_behaviour + world" where
  "printf_s pre post arg w =
     (case string_at arg 0 of
        Inl e \<Rightarrow> Inl e
      | Inr s \<Rightarrow> Inr (w\<lparr>stdout := stdout w @ pre @ s @ post\<rparr>))"

text \<open>
  \<open>fgets(s, n, stream)\<close> (ISO C 7.21.7.2) reads at most \<open>n - 1\<close> bytes from the stream
  into \<open>s\<close>, stops after a newline (which it keeps) or at end of file, and writes a
  terminator after the last byte read. At end of file with no byte read it leaves the
  array as it was and returns a null pointer. \<open>fgets_loop k i\<close> is the reading loop with
  \<open>k\<close> bytes still allowed and \<open>i\<close> the next index of \<open>s\<close>; the result of \<open>fgets\<close> is
  whether the pointer returned is non-null, the array and the world. The stream is the
  list of the bytes still to come, its end is end of file, and a read error is not
  modelled.
\<close>

fun fgets_loop :: "nat \<Rightarrow> nat \<Rightarrow> char list \<Rightarrow> char list \<Rightarrow>
    undefined_behaviour + (nat \<times> char list \<times> char list)" where
  "fgets_loop 0 i s stream = Inr (i, s, stream)"
| "fgets_loop (Suc k) i s [] = Inr (i, s, [])"
| "fgets_loop (Suc k) i s (c # stream) =
     (if length s \<le> i then Inl (OutOfBoundsWrite i)
      else if c = newline then Inr (Suc i, s[i := c], stream)
      else fgets_loop k (Suc i) (s[i := c]) stream)"

definition fgets :: "char list \<Rightarrow> nat \<Rightarrow> world \<Rightarrow>
    undefined_behaviour + (bool \<times> char list \<times> world)" where
  "fgets s n w =
     (case fgets_loop (n - 1) 0 s (stdin w) of
        Inl e \<Rightarrow> Inl e
      | Inr (i, s', stream') \<Rightarrow>
          if i = 0 \<and> stream' = [] \<and> 1 < n then Inr (False, s, w\<lparr>stdin := stream'\<rparr>)
          else if length s' \<le> i then Inl (OutOfBoundsWrite i)
          else Inr (True, s'[i := NUL], w\<lparr>stdin := stream'\<rparr>))"

subsection \<open>The program\<close>

text \<open>
  \<open>copy_user_input\<close>: the array pointed to by \<open>user_input\<close> is its argument;
  \<open>junk\<close> is what the fresh \<open>buffer\<close> holds.
\<close>

definition copy_user_input :: "indeterminate \<Rightarrow> char list \<Rightarrow> world \<Rightarrow> undefined_behaviour + world" where
  "copy_user_input junk user_input w =
     (let buffer = auto_array 64 junk in
      case strcpy buffer user_input of
        Inl e \<Rightarrow> Inl e
      | Inr buffer' \<Rightarrow> printf_s ''Copied: '' [newline] buffer' w)"

text \<open>
  \<open>main\<close>: the result is the exit status and the world. The value \<open>fgets\<close> returns is
  dropped, as in the source. \<open>main_with callee\<close> is the body of \<open>main\<close> with the
  function called on the array as a parameter; \<open>main\<close> is this body calling
  \<open>copy_user_input\<close>, as the source does.
\<close>

definition main_with :: "(char list \<Rightarrow> world \<Rightarrow> undefined_behaviour + world) \<Rightarrow>
    indeterminate \<Rightarrow> world \<Rightarrow> undefined_behaviour + (int \<times> world)" where
  "main_with callee junk_input w =
     (let input = auto_array 256 junk_input;
          w1 = printf_lit ''Enter data: '' w
      in case fgets input (length input) w1 of
           Inl e \<Rightarrow> Inl e
         | Inr (_, input', w2) \<Rightarrow>
             (case callee input' w2 of
                Inl e \<Rightarrow> Inl e
              | Inr w3 \<Rightarrow> Inr (0, w3)))"

definition main :: "indeterminate \<Rightarrow> indeterminate \<Rightarrow> world \<Rightarrow> undefined_behaviour + (int \<times> world)" where
  "main junk_input junk_buffer w = main_with (copy_user_input junk_buffer) junk_input w"

subsection \<open>Notions used to state the properties\<close>

text \<open>
  \<open>c_str s\<close> is the string an array starts with (its bytes before the first
  terminator), so that \<open>strlen s = length (c_str s)\<close>. \<open>read_line k stream\<close> is the
  prefix of the stream that a read of at most \<open>k\<close> bytes takes: up to and including
  the first newline, or \<open>k\<close> bytes, or the whole stream.
\<close>

definition c_str :: "char list \<Rightarrow> char list" where
  "c_str s = takeWhile (\<lambda>c. c \<noteq> NUL) s"

fun read_line :: "nat \<Rightarrow> char list \<Rightarrow> char list" where
  "read_line 0 stream = []"
| "read_line (Suc k) [] = []"
| "read_line (Suc k) (c # stream) = (if c = newline then [c] else c # read_line k stream)"

text \<open>
  Two fillings of a fresh array, as concrete inputs: zero bytes throughout, and the
  letter \<open>A\<close> followed by zero bytes.
\<close>

definition zeros :: indeterminate where
  "zeros i = NUL"

definition A_then_zeros :: indeterminate where
  "A_then_zeros i = (if i = 0 then CHR ''A'' else NUL)"

section \<open>Auxiliary facts\<close>

declare strcpy_from.simps [simp del] string_at.simps [simp del]

lemma strcpy_from_fits:
  "p < length src \<Longrightarrow> src ! p = NUL \<Longrightarrow> (\<forall>k<p. src ! k \<noteq> NUL) \<Longrightarrow> p < length dest \<Longrightarrow> i \<le> p \<Longrightarrow>
   strcpy_from i dest src = Inr (take i dest @ drop i (take p src) @ NUL # drop (Suc p) dest)"
proof (induction "p - i" arbitrary: i dest)
  case 0
  then have "i = p" by simp
  with 0 show ?case
    by (subst strcpy_from.simps) (simp add: upd_conv_take_nth_drop)
next
  case (Suc d)
  then have lt: "i < p" by simp
  let ?dest = "dest[i := src ! i]"
  have ih: "strcpy_from (Suc i) ?dest src =
      Inr (take (Suc i) ?dest @ drop (Suc i) (take p src) @ NUL # drop (Suc p) ?dest)"
    using Suc.hyps(1) [of "Suc i" ?dest] Suc.hyps(2) Suc.prems lt by simp
  have a: "take (Suc i) ?dest = take i dest @ [src ! i]"
    using lt Suc.prems by (simp add: take_Suc_conv_app_nth)
  have b: "drop i (take p src) = src ! i # drop (Suc i) (take p src)"
    using lt Suc.prems by (simp add: Cons_nth_drop_Suc [symmetric])
  have c: "drop (Suc p) ?dest = drop (Suc p) dest"
    using lt by simp
  have "strcpy_from i dest src = strcpy_from (Suc i) ?dest src"
    using lt Suc.prems by (subst strcpy_from.simps) simp
  then show ?case
    by (simp add: ih a b c)
qed

lemma strcpy_from_overflow:
  "length dest < length src \<Longrightarrow> (\<forall>k<length dest. src ! k \<noteq> NUL) \<Longrightarrow> i \<le> length dest \<Longrightarrow>
   strcpy_from i dest src = Inl (OutOfBoundsWrite (length dest))"
proof (induction "length dest - i" arbitrary: i dest)
  case 0
  then show ?case
    by (subst strcpy_from.simps) simp
next
  case (Suc d)
  then have lt: "i < length dest" by simp
  have "strcpy_from i dest src = strcpy_from (Suc i) (dest[i := src ! i]) src"
    using lt Suc.prems by (subst strcpy_from.simps) simp
  also have "\<dots> = Inl (OutOfBoundsWrite (length (dest[i := src ! i])))"
    using Suc.hyps(1) [of "dest[i := src ! i]" "Suc i"] Suc.hyps(2) Suc.prems lt by simp
  finally show ?case by simp
qed

lemma string_at_terminated:
  "NUL \<notin> set pre \<Longrightarrow> i \<le> length pre \<Longrightarrow> string_at (pre @ NUL # rest) i = Inr (drop i pre)"
proof (induction "length pre - i" arbitrary: i)
  case 0
  then have "i = length pre" by simp
  then show ?case
    by (subst string_at.simps) simp
next
  case (Suc d)
  then have lt: "i < length pre" by simp
  then have nz: "pre ! i \<noteq> NUL"
    using Suc.prems(1) by (metis nth_mem)
  have ih: "string_at (pre @ NUL # rest) (Suc i) = Inr (drop (Suc i) pre)"
    using Suc.hyps(1) [of "Suc i"] Suc.hyps(2) Suc.prems lt by simp
  show ?case
    using lt nz by (subst string_at.simps) (simp add: ih nth_append Cons_nth_drop_Suc)
qed

lemma strlen_c_str: "strlen s = length (c_str s)"
  by (simp add: strlen_def c_str_def)

lemma NUL_notin_c_str: "NUL \<notin> set (c_str s)"
  by (auto simp: c_str_def dest: set_takeWhileD)

lemma split_at_NUL:
  assumes "NUL \<in> set s"
  shows "s = c_str s @ NUL # tl (dropWhile (\<lambda>c. c \<noteq> NUL) s)"
proof -
  let ?d = "dropWhile (\<lambda>c. c \<noteq> NUL) s"
  have "?d \<noteq> []" using assms by (simp add: dropWhile_eq_Nil_conv) 
  moreover from this have "hd ?d = NUL" using hd_dropWhile [of "\<lambda>c. c \<noteq> NUL" s] by simp
  ultimately have "?d = NUL # tl ?d" by (cases ?d) simp_all
  then show ?thesis
    using takeWhile_dropWhile_id [of "\<lambda>c. c \<noteq> NUL" s] by (simp add: c_str_def)
qed

lemma c_str_append_NUL: "NUL \<notin> set pre \<Longrightarrow> c_str (pre @ NUL # post) = pre"
  unfolding c_str_def by (subst takeWhile_append2) auto

lemma strlen_append_NUL: "NUL \<notin> set pre \<Longrightarrow> strlen (pre @ NUL # post) = length pre"
  by (simp add: strlen_c_str c_str_append_NUL)

lemma strcpy_fits:
  assumes "NUL \<notin> set pre" "length pre < length dest"
  shows "strcpy dest (pre @ NUL # post) = Inr (pre @ NUL # drop (Suc (length pre)) dest)"
proof -
  have "\<forall>k<length pre. (pre @ NUL # post) ! k \<noteq> NUL"
    using assms(1) by (auto simp: nth_append dest: nth_mem)
  then show ?thesis
    using strcpy_from_fits [of "length pre" "pre @ NUL # post" dest 0] assms(2)
    by (simp add: strcpy_def)
qed

lemma strcpy_overflow:
  assumes "NUL \<notin> set pre" "length dest \<le> length pre"
  shows "strcpy dest (pre @ NUL # post) = Inl (OutOfBoundsWrite (length dest))"
proof -
  have "\<forall>k<length dest. (pre @ NUL # post) ! k \<noteq> NUL"
    using assms by (auto simp: nth_append in_set_conv_nth)
  then show ?thesis
    using strcpy_from_overflow [of dest "pre @ NUL # post" 0] assms(2)
    by (simp add: strcpy_def)
qed


lemma length_auto_array [simp]: "length (auto_array n junk) = n"
  by (simp add: auto_array_def)

lemma printf_s_terminated:
  "NUL \<notin> set pre \<Longrightarrow>
   printf_s a b (pre @ NUL # rest) w = Inr (w\<lparr>stdout := stdout w @ a @ pre @ b\<rparr>)"
  by (simp add: printf_s_def string_at_terminated)

lemma copy_user_input_fits:
  assumes "NUL \<notin> set pre" "length pre < 64"
  shows "copy_user_input junk (pre @ NUL # post) w =
     Inr (w\<lparr>stdout := stdout w @ ''Copied: '' @ pre @ [newline]\<rparr>)"
  using assms by (simp add: copy_user_input_def strcpy_fits printf_s_terminated)

lemma copy_user_input_overflows:
  assumes "NUL \<notin> set pre" "64 \<le> length pre"
  shows "copy_user_input junk (pre @ NUL # post) w = Inl (OutOfBoundsWrite 64)"
  using assms by (simp add: copy_user_input_def strcpy_overflow)

lemma strlen_le_index:
  assumes "k < length a" "a ! k = NUL"
  shows "strlen a \<le> k"
proof (rule ccontr)
  assume "\<not> strlen a \<le> k"
  then have lt: "k < length (takeWhile (\<lambda>c. c \<noteq> NUL) a)"
    by (simp add: strlen_def)
  then have "takeWhile (\<lambda>c. c \<noteq> NUL) a ! k \<in> set (takeWhile (\<lambda>c. c \<noteq> NUL) a)"
    by (rule nth_mem)
  then have "takeWhile (\<lambda>c. c \<noteq> NUL) a ! k \<noteq> NUL"
    by (auto dest: set_takeWhileD)
  then show False
    using takeWhile_nth [OF lt] assms(2) by simp
qed

lemma c_str_before_NUL: "c_str (l @ NUL # rest) = c_str (l @ [NUL])"
  by (induction l) (simp_all add: c_str_def)

lemma c_str_snoc_NUL: "c_str (l @ [NUL]) = c_str l"
  by (induction l) (simp_all add: c_str_def)

lemma copy_user_input_string:
  assumes "NUL \<in> set a" "strlen a < 64"
  shows "copy_user_input junk a w =
     Inr (w\<lparr>stdout := stdout w @ ''Copied: '' @ c_str a @ [newline]\<rparr>)"
proof -
  have "copy_user_input junk (c_str a @ NUL # tl (dropWhile (\<lambda>c. c \<noteq> NUL) a)) w =
     Inr (w\<lparr>stdout := stdout w @ ''Copied: '' @ c_str a @ [newline]\<rparr>)"
    using assms(2) by (intro copy_user_input_fits) (simp_all add: NUL_notin_c_str strlen_c_str)
  then show ?thesis
    using split_at_NUL [OF assms(1)] by simp
qed

lemma strcpy_string:
  assumes "NUL \<in> set a" "strlen a < length dest"
  shows "strcpy dest a = Inr (c_str a @ NUL # drop (Suc (strlen a)) dest)"
proof -
  have "strcpy dest (c_str a @ NUL # tl (dropWhile (\<lambda>c. c \<noteq> NUL) a)) =
      Inr (c_str a @ NUL # drop (Suc (length (c_str a))) dest)"
    using assms(2) by (intro strcpy_fits) (simp_all add: NUL_notin_c_str strlen_c_str)
  then show ?thesis
    using split_at_NUL [OF assms(1)] by (simp add: strlen_c_str)
qed

lemma copy_user_input_no_NUL_in_64:
  assumes "64 < length a" "\<forall>k<64. a ! k \<noteq> NUL"
  shows "copy_user_input junk a w = Inl (OutOfBoundsWrite 64)"
  using assms strcpy_from_overflow [of "auto_array 64 junk" a 0]
  by (simp add: copy_user_input_def strcpy_def)

lemma no_NUL_before_strlen:
  assumes "k < strlen a"
  shows "a ! k \<noteq> NUL"
proof -
  have lt: "k < length (takeWhile (\<lambda>c. c \<noteq> NUL) a)"
    using assms by (simp add: strlen_def)
  then have "takeWhile (\<lambda>c. c \<noteq> NUL) a ! k \<in> set (takeWhile (\<lambda>c. c \<noteq> NUL) a)"
    by (rule nth_mem)
  then have "takeWhile (\<lambda>c. c \<noteq> NUL) a ! k \<noteq> NUL"
    by (auto dest: set_takeWhileD)
  then show ?thesis
    using takeWhile_nth [OF lt] by simp
qed

lemma NUL_in_set_if_strlen_less:
  assumes "strlen a < length a"
  shows "NUL \<in> set a"
proof -
  have "a ! strlen a = NUL"
    using nth_length_takeWhile [of "\<lambda>c. c \<noteq> NUL" a] assms by (simp add: strlen_def)
  then show ?thesis
    using assms by (metis nth_mem)
qed

lemma strcpy_cases:
  assumes "length dest < length a"
  shows "strcpy dest a =
     (if strlen a < length dest then Inr (c_str a @ NUL # drop (Suc (strlen a)) dest)
      else Inl (OutOfBoundsWrite (length dest)))"
proof (cases "strlen a < length dest")
  case True
  then have "NUL \<in> set a"
    using assms by (intro NUL_in_set_if_strlen_less) simp
  then show ?thesis
    using True by (simp add: strcpy_string)
next
  case False
  then have "\<forall>k<length dest. a ! k \<noteq> NUL"
    by (intro allI impI no_NUL_before_strlen) simp
  then show ?thesis
    using False assms strcpy_from_overflow [of dest a 0] by (simp add: strcpy_def)
qed

lemma copy_user_input_cases:
  assumes "64 < length a"
  shows "copy_user_input junk a w =
     (if strlen a < 64
      then Inr (w\<lparr>stdout := stdout w @ ''Copied: '' @ c_str a @ [newline]\<rparr>)
      else Inl (OutOfBoundsWrite 64))"
proof (cases "strlen a < 64")
  case True
  then have "NUL \<in> set a"
    using assms by (intro NUL_in_set_if_strlen_less) simp
  then show ?thesis
    using True by (simp add: copy_user_input_string)
next
  case False
  then have "\<forall>k<64. a ! k \<noteq> NUL"
    by (intro allI impI no_NUL_before_strlen) simp
  then show ?thesis
    using False assms by (simp add: copy_user_input_no_NUL_in_64)
qed

lemma length_read_line: "length (read_line k stream) \<le> k"
  by (induction k stream rule: read_line.induct) simp_all

lemma length_read_line_stream: "length (read_line k stream) \<le> length stream"
  by (induction k stream rule: read_line.induct) simp_all

lemma read_line_Nil_iff: "read_line k stream = [] \<longleftrightarrow> k = 0 \<or> stream = []"
  by (induction k stream rule: read_line.induct) simp_all

lemma read_line_prefix: "take (length (read_line k stream)) stream = read_line k stream"
  by (induction k stream rule: read_line.induct) simp_all

lemma fgets_loop_in_bounds:
  "i + k \<le> length s \<Longrightarrow>
   fgets_loop k i s stream =
     Inr (i + length (read_line k stream),
          take i s @ read_line k stream @ drop (i + length (read_line k stream)) s,
          drop (length (read_line k stream)) stream)"
proof (induction k i s stream rule: fgets_loop.induct)
  case (1 i s stream)
  then show ?case by simp
next
  case (2 k i s)
  then show ?case by simp
next
  case (3 k i s c stream)
  then have lt: "i < length s" by simp
  show ?case
  proof (cases "c = newline")
    case True
    then show ?thesis
      using lt by (simp add: upd_conv_take_nth_drop)
  next
    case False
    have "take (Suc i) (s[i := c]) = take i s @ [c]"
      using lt by (simp add: take_Suc_conv_app_nth)
    then show ?thesis
      using False lt 3 by simp
  qed
qed

lemma fgets_in_bounds:
  assumes "1 < n" "n \<le> length s"
  shows "fgets s n w =
     (if stdin w = [] then Inr (False, s, w)
      else Inr (True,
             read_line (n - 1) (stdin w) @ NUL # drop (Suc (length (read_line (n - 1) (stdin w)))) s,
             w\<lparr>stdin := drop (length (read_line (n - 1) (stdin w))) (stdin w)\<rparr>))"
proof -
  let ?l = "read_line (n - 1) (stdin w)"
  have loop: "fgets_loop (n - 1) 0 s (stdin w) =
      Inr (length ?l, ?l @ drop (length ?l) s, drop (length ?l) (stdin w))"
    using fgets_loop_in_bounds [of 0 "n - 1" s "stdin w"] assms by simp
  have len: "length ?l < length s"
    using length_read_line [of "n - 1" "stdin w"] assms by simp
  have unfolded: "fgets s n w =
      (if ?l = [] \<and> drop (length ?l) (stdin w) = []
       then Inr (False, s, w\<lparr>stdin := drop (length ?l) (stdin w)\<rparr>)
       else Inr (True, (?l @ drop (length ?l) s)[length ?l := NUL],
              w\<lparr>stdin := drop (length ?l) (stdin w)\<rparr>))"
    unfolding fgets_def loop using assms(1) len by auto
  have upd: "(?l @ drop (length ?l) s)[length ?l := NUL] = ?l @ NUL # drop (Suc (length ?l)) s"
    using len by (simp add: list_update_append upd_conv_take_nth_drop drop_Suc tl_drop)
  have nil: "?l = [] \<longleftrightarrow> stdin w = []"
    using assms(1) by (simp add: read_line_Nil_iff)
  show ?thesis
  proof (cases "stdin w = []")
    case True
    then have "w\<lparr>stdin := []\<rparr> = w" by simp
    then show ?thesis
      unfolding unfolded upd using True nil by simp
  next
    case False
    then show ?thesis
      unfolding unfolded upd using nil by simp
  qed
qed


lemma main_at_end_of_file:
  assumes "stdin w = []"
  shows "main ji jb w =
     (case copy_user_input jb (auto_array 256 ji) (printf_lit ''Enter data: '' w) of
        Inl e \<Rightarrow> Inl e
      | Inr w3 \<Rightarrow> Inr (0, w3))"
  using assms by (simp add: main_def main_with_def Let_def fgets_in_bounds printf_lit_def)

lemma main_with_input:
  assumes "stdin w \<noteq> []"
  shows "main ji jb w =
     (case copy_user_input jb
             (read_line 255 (stdin w) @
                NUL # drop (Suc (length (read_line 255 (stdin w)))) (auto_array 256 ji))
             \<lparr>stdin = drop (length (read_line 255 (stdin w))) (stdin w),
              stdout = stdout w @ ''Enter data: ''\<rparr> of
        Inl e \<Rightarrow> Inl e
      | Inr w3 \<Rightarrow> Inr (0, w3))"
proof -
  let ?l = "read_line 255 (stdin w)"
  have step: "main ji jb w =
     (case copy_user_input jb (?l @ NUL # drop (Suc (length ?l)) (auto_array 256 ji))
             (w\<lparr>stdout := stdout w @ ''Enter data: '', stdin := drop (length ?l) (stdin w)\<rparr>) of
        Inl e \<Rightarrow> Inl e
      | Inr w3 \<Rightarrow> Inr (0, w3))"
    using assms by (simp add: main_def main_with_def Let_def fgets_in_bounds printf_lit_def)
  have w_eq: "w\<lparr>stdout := a, stdin := b\<rparr> = \<lparr>stdin = b, stdout = a\<rparr>" for a b
    by simp
  show ?thesis
    by (simp only: step w_eq)
qed

lemma main_short_line:
  assumes "stdin w \<noteq> []" "strlen (read_line 255 (stdin w)) < 64"
  shows "main ji jb w =
     Inr (0, \<lparr>stdin = drop (length (read_line 255 (stdin w))) (stdin w),
              stdout = stdout w @ ''Enter data: '' @ ''Copied: '' @
                 c_str (read_line 255 (stdin w)) @ [newline]\<rparr>)"
proof -
  let ?l = "read_line 255 (stdin w)"
  let ?a = "?l @ NUL # drop (Suc (length ?l)) (auto_array 256 ji)"
  let ?w = "\<lparr>stdin = drop (length ?l) (stdin w), stdout = stdout w @ ''Enter data: ''\<rparr>"
  have c: "c_str ?a = c_str ?l"
    by (simp only: c_str_before_NUL [of ?l] c_str_snoc_NUL)
  then have "strlen ?a < 64"
    using assms(2) by (simp only: strlen_c_str)
  moreover have "NUL \<in> set ?a" by simp
  ultimately have "copy_user_input jb ?a ?w =
      Inr (?w\<lparr>stdout := stdout ?w @ ''Copied: '' @ c_str ?a @ [newline]\<rparr>)"
    by (rule copy_user_input_string [rotated])
  then show ?thesis
    by (simp only: main_with_input [OF assms(1)] c) simp
qed

lemma main_read_result:
  "fgets (auto_array 256 ji) (length (auto_array 256 ji)) (printf_lit ''Enter data: '' w) =
     Inr (stdin w \<noteq> [],
          (if stdin w = [] then auto_array 256 ji
           else read_line 255 (stdin w) @
             NUL # drop (Suc (length (read_line 255 (stdin w)))) (auto_array 256 ji)),
          \<lparr>stdin = drop (length (read_line 255 (stdin w))) (stdin w),
           stdout = stdout w @ ''Enter data: ''\<rparr>)"
proof -
  have w_eq: "w\<lparr>stdout := a, stdin := b\<rparr> = \<lparr>stdin = b, stdout = a\<rparr>" for a b
    by simp
  have w_eof: "w\<lparr>stdout := a\<rparr> = \<lparr>stdin = [], stdout = a\<rparr>" if "stdin w = []" for a
    using that by simp
  show ?thesis
  proof (cases "stdin w = []")
    case True
    then show ?thesis
      by (simp add: fgets_in_bounds printf_lit_def w_eof)
  next
    case False
    have "fgets (auto_array 256 ji) (length (auto_array 256 ji)) (printf_lit ''Enter data: '' w) =
        Inr (True,
          read_line 255 (stdin w) @
            NUL # drop (Suc (length (read_line 255 (stdin w)))) (auto_array 256 ji),
          w\<lparr>stdout := stdout w @ ''Enter data: '',
            stdin := drop (length (read_line 255 (stdin w))) (stdin w)\<rparr>)"
      using False by (simp add: fgets_in_bounds printf_lit_def)
    then show ?thesis
      using False by (simp only: w_eq) simp
  qed
qed

lemma length_main_input:
  "length (if stdin w = [] then auto_array 256 ji
           else read_line 255 (stdin w) @
             NUL # drop (Suc (length (read_line 255 (stdin w)))) (auto_array 256 ji)) = 256"
  using length_read_line [of 255 "stdin w"] by simp

lemma main_with_result:
  "main_with callee ji w =
     (case callee
             (if stdin w = [] then auto_array 256 ji
              else read_line 255 (stdin w) @
                NUL # drop (Suc (length (read_line 255 (stdin w)))) (auto_array 256 ji))
             \<lparr>stdin = drop (length (read_line 255 (stdin w))) (stdin w),
              stdout = stdout w @ ''Enter data: ''\<rparr> of
        Inl e \<Rightarrow> Inl e
      | Inr w3 \<Rightarrow> Inr (0, w3))"
  unfolding main_with_def Let_def main_read_result by simp

lemma strlen_le_length: "strlen a \<le> length a"
  by (simp add: strlen_def length_takeWhile_le)

lemma main_at_end_of_file_echo:
  assumes "stdin w = []" "strlen (auto_array 256 ji) < 64"
  shows "main ji jb w =
     Inr (0, w\<lparr>stdout := stdout w @ ''Enter data: '' @ ''Copied: '' @
               c_str (auto_array 256 ji) @ [newline]\<rparr>)"
proof -
  have "NUL \<in> set (auto_array 256 ji)"
    using assms(2) by (intro NUL_in_set_if_strlen_less) simp
  then show ?thesis
    using assms by (simp add: main_at_end_of_file copy_user_input_string printf_lit_def)
qed

section \<open>The claims\<close>

text \<open>
  C1. For every input string of 64 bytes or more (terminator not counted), the copy in
  \<open>copy_user_input\<close> stores outside the 64-byte \<open>buffer\<close>: the run is undefined by
  the write at index 64, the first one past the array.
\<close>

theorem copy_user_input_out_of_bounds:
  assumes "NUL \<in> set user_input" and "64 \<le> strlen user_input"
  shows "copy_user_input junk user_input w = Inl (OutOfBoundsWrite 64)"
proof -
  have "copy_user_input junk (c_str user_input @ NUL # tl (dropWhile (\<lambda>c. c \<noteq> NUL) user_input)) w
      = Inl (OutOfBoundsWrite 64)"
    using assms(2) by (intro copy_user_input_overflows) (simp_all add: NUL_notin_c_str strlen_c_str)
  then show ?thesis
    using split_at_NUL [OF assms(1)] by simp
qed

theorem copy_user_input_out_of_bounds_witness:
  "NUL \<in> set (replicate 64 (CHR ''A'') @ [NUL]) \<and>
   64 \<le> strlen (replicate 64 (CHR ''A'') @ [NUL]) \<and>
   copy_user_input (\<lambda>i. CHR ''?'') (replicate 64 (CHR ''A'') @ [NUL]) \<lparr>stdin = [], stdout = []\<rparr> =
     Inl (OutOfBoundsWrite 64)"
proof -
  have a: "NUL \<in> set (replicate 64 (CHR ''A'') @ [NUL])" by simp
  have b: "64 \<le> strlen (replicate 64 (CHR ''A'') @ [NUL])"
    by (simp add: strlen_append_NUL)
  show ?thesis
    using a b copy_user_input_out_of_bounds [OF a b] by blast
qed

text \<open>
  C2. For every input string shorter than 64 bytes (terminator not counted),
  \<open>copy_user_input\<close> stays inside \<open>buffer\<close> (the copy is defined, and stores the
  string and its terminator at the start of the array, leaving the cells after them
  alone) and appends exactly \<open>Copied: \<close>, the input and a newline to the output.
\<close>

theorem copy_user_input_short:
  assumes "NUL \<in> set user_input" and "strlen user_input < 64"
  shows "strcpy (auto_array 64 junk) user_input =
       Inr (c_str user_input @ NUL # drop (Suc (strlen user_input)) (auto_array 64 junk)) \<and>
     copy_user_input junk user_input w =
       Inr (w\<lparr>stdout := stdout w @ ''Copied: '' @ c_str user_input @ [newline]\<rparr>)"
  using assms by (simp add: strcpy_string copy_user_input_string)

theorem copy_user_input_short_witness:
  "NUL \<in> set (''hello'' @ [NUL]) \<and> strlen (''hello'' @ [NUL]) < 64 \<and>
   copy_user_input (\<lambda>i. CHR ''?'') (''hello'' @ [NUL]) \<lparr>stdin = [], stdout = ''> ''\<rparr> =
     Inr \<lparr>stdin = [], stdout = ''> Copied: hello'' @ [newline]\<rparr>"
proof -
  have a: "NUL \<in> set (''hello'' @ [NUL])" by simp
  have b: "strlen (''hello'' @ [NUL]) < 64" by (simp add: strlen_def)
  show ?thesis
    using a b copy_user_input_short [OF a b, of "\<lambda>i. CHR ''?''" "\<lparr>stdin = [], stdout = ''> ''\<rparr>"]
    by (simp add: c_str_def)
qed






text \<open>
  C6. The read in \<open>main\<close> is bounded and safe: whatever standard input holds, the call
  \<open>fgets(input, sizeof(input), stdin)\<close> is defined (no store outside \<open>input\<close>); at end
  of file it stores nothing, otherwise it stores the bytes it takes from the stream, at
  most 255, and one terminator, and \<open>input\<close> keeps its 256 cells.
\<close>

theorem main_read_in_bounds:
  "fgets (auto_array 256 junk) (length (auto_array 256 junk)) w =
     (if stdin w = [] then Inr (False, auto_array 256 junk, w)
      else Inr (True,
             read_line 255 (stdin w) @
               NUL # drop (Suc (length (read_line 255 (stdin w)))) (auto_array 256 junk),
             w\<lparr>stdin := drop (length (read_line 255 (stdin w))) (stdin w)\<rparr>)) \<and>
   length (read_line 255 (stdin w)) \<le> 255 \<and>
   length (read_line 255 (stdin w) @
      NUL # drop (Suc (length (read_line 255 (stdin w)))) (auto_array 256 junk)) = 256"
  using length_read_line [of 255 "stdin w"]
  by (simp add: fgets_in_bounds)

text \<open>
  C7. Whatever standard input and the arrays hold, \<open>main\<close> returns status 0 exactly
  when the string in the array it forwards is shorter than 64 bytes, having written the
  prompt and the \<open>Copied: \<close> line and nothing else. Nothing in the program returns or
  reports an error: the copy has no outcome but to complete or, on a string of 64 bytes
  or more, to go on and store at \<open>buffer[64]\<close>, past the array, and then
  \<open>copy_user_input\<close> and \<open>main\<close> have no outcome but this undefined behaviour; no
  run returns another status or writes anything else.
\<close>

theorem main_returns_0:
  "\<exists>r input' w'.
     fgets (auto_array 256 junk_input) (length (auto_array 256 junk_input))
       (printf_lit ''Enter data: '' w) = Inr (r, input', w') \<and>
     w' = \<lparr>stdin = drop (length (read_line 255 (stdin w))) (stdin w),
           stdout = stdout w @ ''Enter data: ''\<rparr> \<and>
     strcpy (auto_array 64 junk_buffer) input' =
       (if strlen input' < 64
        then Inr (c_str input' @ NUL # drop (Suc (strlen input')) (auto_array 64 junk_buffer))
        else Inl (OutOfBoundsWrite 64)) \<and>
     copy_user_input junk_buffer input' w' =
       (if strlen input' < 64
        then Inr (w'\<lparr>stdout := stdout w' @ ''Copied: '' @ c_str input' @ [newline]\<rparr>)
        else Inl (OutOfBoundsWrite 64)) \<and>
     main junk_input junk_buffer w =
       (if strlen input' < 64
        then Inr (0, w'\<lparr>stdout := stdout w' @ ''Copied: '' @ c_str input' @ [newline]\<rparr>)
        else Inl (OutOfBoundsWrite 64))"
proof -
  let ?input = "if stdin w = [] then auto_array 256 junk_input
      else read_line 255 (stdin w) @
        NUL # drop (Suc (length (read_line 255 (stdin w)))) (auto_array 256 junk_input)"
  let ?w = "\<lparr>stdin = drop (length (read_line 255 (stdin w))) (stdin w),
      stdout = stdout w @ ''Enter data: ''\<rparr>"
  have len: "length ?input = 256"
    by (rule length_main_input)
  have s: "strcpy (auto_array 64 junk_buffer) ?input =
       (if strlen ?input < 64
        then Inr (c_str ?input @ NUL # drop (Suc (strlen ?input)) (auto_array 64 junk_buffer))
        else Inl (OutOfBoundsWrite 64))"
    using strcpy_cases [of "auto_array 64 junk_buffer" ?input] len by simp
  have c: "copy_user_input junk_buffer ?input ?w =
       (if strlen ?input < 64
        then Inr (?w\<lparr>stdout := stdout ?w @ ''Copied: '' @ c_str ?input @ [newline]\<rparr>)
        else Inl (OutOfBoundsWrite 64))"
    using copy_user_input_cases [of ?input junk_buffer ?w] len by simp
  have m: "main junk_input junk_buffer w =
       (if strlen ?input < 64
        then Inr (0, ?w\<lparr>stdout := stdout ?w @ ''Copied: '' @ c_str ?input @ [newline]\<rparr>)
        else Inl (OutOfBoundsWrite 64))"
    unfolding main_def main_with_result c by simp
  show ?thesis
    using main_read_result [of junk_input w] s c m by blast
qed

theorem main_returns_0_witness:
  "main (\<lambda>i. CHR ''?'') (\<lambda>i. CHR ''?'') \<lparr>stdin = ''hi'' @ [newline], stdout = []\<rparr> =
     Inr (0, \<lparr>stdin = [], stdout = ''Enter data: Copied: hi'' @ [newline, newline]\<rparr>) \<and>
   main (\<lambda>i. CHR ''?'') (\<lambda>i. CHR ''?'')
       \<lparr>stdin = replicate 64 (CHR ''A'') @ [newline], stdout = []\<rparr> =
     Inl (OutOfBoundsWrite 64)"
proof -
  let ?j = "\<lambda>i::nat. CHR ''?''"
  have short: "main ?j ?j \<lparr>stdin = ''hi'' @ [newline], stdout = []\<rparr> =
     Inr (0, \<lparr>stdin = [], stdout = ''Enter data: Copied: hi'' @ [newline, newline]\<rparr>)"
  proof -
    let ?w = "\<lparr>stdin = ''hi'' @ [newline], stdout = []\<rparr>"
    let ?l = "''hi'' @ [newline]"
    obtain r input' w' where
      fg: "fgets (auto_array 256 ?j) (length (auto_array 256 ?j)) (printf_lit ''Enter data: '' ?w) =
        Inr (r, input', w')"
      and w': "w' = \<lparr>stdin = drop (length (read_line 255 (stdin ?w))) (stdin ?w),
           stdout = stdout ?w @ ''Enter data: ''\<rparr>"
      and m: "main ?j ?j ?w =
       (if strlen input' < 64
        then Inr (0, w'\<lparr>stdout := stdout w' @ ''Copied: '' @ c_str input' @ [newline]\<rparr>)
        else Inl (OutOfBoundsWrite 64))"
      using main_returns_0 [of ?j ?w ?j] by blast
    have rl: "read_line 255 (stdin ?w) = ?l"
      by code_simp
    have "input' = ?l @ NUL # drop (Suc (length ?l)) (auto_array 256 ?j)"
      using fg unfolding main_read_result rl by simp
    then have cs: "c_str input' = ?l"
      by (simp only: c_str_before_NUL [of ?l] c_str_snoc_NUL) (simp add: c_str_def)
    then have sl: "strlen input' < 64"
      by (simp add: strlen_c_str)
    have w'': "w' = \<lparr>stdin = [], stdout = ''Enter data: ''\<rparr>"
      unfolding w' rl by simp
    show ?thesis
      unfolding m cs w'' using sl by simp
  qed
  have long: "main ?j ?j \<lparr>stdin = replicate 64 (CHR ''A'') @ [newline], stdout = []\<rparr> =
     Inl (OutOfBoundsWrite 64)"
  proof -
    let ?l = "replicate 64 (CHR ''A'') @ [newline]"
    let ?w = "\<lparr>stdin = ?l, stdout = []\<rparr>"
    obtain r input' w' where
      fg: "fgets (auto_array 256 ?j) (length (auto_array 256 ?j)) (printf_lit ''Enter data: '' ?w) =
        Inr (r, input', w')"
      and m: "main ?j ?j ?w =
       (if strlen input' < 64
        then Inr (0, w'\<lparr>stdout := stdout w' @ ''Copied: '' @ c_str input' @ [newline]\<rparr>)
        else Inl (OutOfBoundsWrite 64))"
      using main_returns_0 [of ?j ?w ?j] by blast
    have rl: "read_line 255 (stdin ?w) = ?l"
      by code_simp
    have inp: "input' = ?l @ NUL # drop (Suc (length ?l)) (auto_array 256 ?j)"
      using fg unfolding main_read_result rl by simp
    have "strlen (?l @ NUL # drop (Suc (length ?l)) (auto_array 256 ?j)) = length ?l"
      by (rule strlen_append_NUL) simp
    then have "strlen input' = length ?l"
      unfolding inp .
    then have sl: "\<not> strlen input' < 64"
      by simp
    show ?thesis
      unfolding m using sl by simp
  qed
  from short long show ?thesis ..
qed

text \<open>
  C8. \<open>main\<close> hands to the function it calls the very array the read produced, byte
  for byte: for every standard input the read yields an array and a world, and whatever
  the function called on the array, the outcome of the body of \<open>main\<close> is the outcome
  of that function on this array in this world, with status 0 on return. So nothing in
  \<open>main\<close> changes, filters or shortens the array between the read and the call; and
  \<open>main\<close> is this body calling \<open>copy_user_input\<close>. The array is \<open>input\<close> as the read
  left it: untouched at end of file, and otherwise the bytes taken from the stream, the
  terminator, and the cells after them untouched.
\<close>

theorem main_forwards_input:
  "\<exists>r input' w'.
     fgets (auto_array 256 junk_input) (length (auto_array 256 junk_input))
       (printf_lit ''Enter data: '' w) = Inr (r, input', w') \<and>
     input' =
       (if stdin w = [] then auto_array 256 junk_input
        else read_line 255 (stdin w) @
          NUL # drop (Suc (length (read_line 255 (stdin w)))) (auto_array 256 junk_input)) \<and>
     w' = \<lparr>stdin = drop (length (read_line 255 (stdin w))) (stdin w),
           stdout = stdout w @ ''Enter data: ''\<rparr> \<and>
     (\<forall>callee. main_with callee junk_input w =
        (case callee input' w' of
           Inl e \<Rightarrow> Inl e
         | Inr w3 \<Rightarrow> Inr (0, w3))) \<and>
     main junk_input junk_buffer w = main_with (copy_user_input junk_buffer) junk_input w \<and>
     main junk_input junk_buffer w =
       (case copy_user_input junk_buffer input' w' of
          Inl e \<Rightarrow> Inl e
        | Inr w3 \<Rightarrow> Inr (0, w3))"
  using main_read_result [of junk_input w]
  by (simp add: main_def main_with_result)

theorem main_forwards_input_witness:
  "main_with (\<lambda>a w. Inr (w\<lparr>stdout := stdout w @ a\<rparr>)) (\<lambda>i. CHR ''?'')
       \<lparr>stdin = ''hi'' @ [newline], stdout = []\<rparr> =
     Inr (0, \<lparr>stdin = [],
              stdout = ''Enter data: hi'' @ [newline, NUL] @ replicate 252 (CHR ''?'')\<rparr>)"
proof -
  let ?j = "\<lambda>i::nat. CHR ''?''"
  let ?l = "''hi'' @ [newline]"
  let ?w = "\<lparr>stdin = ?l, stdout = []\<rparr>"
  let ?dump = "\<lambda>a w. Inr (w\<lparr>stdout := stdout w @ a\<rparr>) :: undefined_behaviour + world"
  obtain r input' w' where
    inp: "input' =
       (if stdin ?w = [] then auto_array 256 ?j
        else read_line 255 (stdin ?w) @
          NUL # drop (Suc (length (read_line 255 (stdin ?w)))) (auto_array 256 ?j))"
    and w': "w' = \<lparr>stdin = drop (length (read_line 255 (stdin ?w))) (stdin ?w),
           stdout = stdout ?w @ ''Enter data: ''\<rparr>"
    and all: "\<forall>callee. main_with callee ?j ?w =
        (case callee input' w' of Inl e \<Rightarrow> Inl e | Inr w3 \<Rightarrow> Inr (0, w3))"
    using main_forwards_input [of ?j ?w ?j] by blast
  have rl: "read_line 255 (stdin ?w) = ?l"
    by code_simp
  have arr: "auto_array 256 ?j = replicate 256 (CHR ''?'')"
    by (simp add: auto_array_def map_replicate_const)
  have inp': "input' = ?l @ NUL # replicate 252 (CHR ''?'')"
    unfolding inp rl arr by simp
  have w'': "w' = \<lparr>stdin = [], stdout = ''Enter data: ''\<rparr>"
    unfolding w' rl by simp
  have "main_with ?dump ?j ?w =
      (case ?dump input' w' of Inl e \<Rightarrow> Inl e | Inr w3 \<Rightarrow> Inr (0, w3))"
    using all by (rule spec)
  then show ?thesis
    unfolding inp' w'' by simp
qed

text \<open>
  C9. As stated the claim fails on the empty standard input: the read stores nothing,
  and the line echoed is whatever the array \<open>input\<close> held before, so two runs on the
  same (empty) standard input can write different bytes.
\<close>

theorem main_end_of_file_counterexample:
  "length (stdin \<lparr>stdin = [], stdout = []\<rparr>) < 64 \<and>
   main zeros zeros \<lparr>stdin = [], stdout = []\<rparr> =
     Inr (0, \<lparr>stdin = [], stdout = ''Enter data: Copied: '' @ [newline]\<rparr>) \<and>
   main A_then_zeros zeros \<lparr>stdin = [], stdout = []\<rparr> =
     Inr (0, \<lparr>stdin = [], stdout = ''Enter data: Copied: A'' @ [newline]\<rparr>) \<and>
   main zeros zeros \<lparr>stdin = [], stdout = []\<rparr> \<noteq>
     main A_then_zeros zeros \<lparr>stdin = [], stdout = []\<rparr>"
proof -
  have a0: "c_str (auto_array 256 zeros) = []"
    by code_simp
  have a1: "c_str (auto_array 256 A_then_zeros) = ''A''"
    by code_simp
  have m0: "main zeros zeros \<lparr>stdin = [], stdout = []\<rparr> =
      Inr (0, \<lparr>stdin = [], stdout = ''Enter data: Copied: '' @ [newline]\<rparr>)"
    using main_at_end_of_file_echo [of "\<lparr>stdin = [], stdout = []\<rparr>" zeros zeros]
    by (simp add: strlen_c_str a0)
  have m1: "main A_then_zeros zeros \<lparr>stdin = [], stdout = []\<rparr> =
      Inr (0, \<lparr>stdin = [], stdout = ''Enter data: Copied: A'' @ [newline]\<rparr>)"
    using main_at_end_of_file_echo [of "\<lparr>stdin = [], stdout = []\<rparr>" A_then_zeros zeros]
    by (simp add: strlen_c_str a1)
  show ?thesis
    unfolding m0 m1 by simp
qed

text \<open>
  C9, amended. On a non-empty standard input shorter than 64 bytes the run is
  determined by standard input alone: whatever the two arrays held before, \<open>main\<close>
  returns status 0, has taken the first line from the stream, and has written the
  prompt, \<open>Copied: \<close>, that line up to its first zero byte, and a newline.
\<close>

theorem main_determined_by_stdin:
  assumes "stdin w \<noteq> []" and "length (stdin w) < 64"
  shows "main junk_input junk_buffer w = main junk_input' junk_buffer' w \<and>
     main junk_input junk_buffer w =
       Inr (0, \<lparr>stdin = drop (length (read_line 255 (stdin w))) (stdin w),
                stdout = stdout w @ ''Enter data: '' @ ''Copied: '' @
                  c_str (read_line 255 (stdin w)) @ [newline]\<rparr>)"
proof -
  have "strlen (read_line 255 (stdin w)) < 64"
    using strlen_le_length [of "read_line 255 (stdin w)"]
      length_read_line_stream [of 255 "stdin w"] assms(2)
    by simp
  then show ?thesis
    by (simp add: main_short_line [OF assms(1)])
qed

theorem main_determined_by_stdin_witness:
  "stdin \<lparr>stdin = ''hi'' @ [newline], stdout = []\<rparr> \<noteq> [] \<and>
   length (stdin \<lparr>stdin = ''hi'' @ [newline], stdout = []\<rparr>) < 64 \<and>
   main (\<lambda>i. CHR ''?'') (\<lambda>i. CHR ''?'') \<lparr>stdin = ''hi'' @ [newline], stdout = []\<rparr> =
     main (\<lambda>i. CHR ''!'') (\<lambda>i. NUL) \<lparr>stdin = ''hi'' @ [newline], stdout = []\<rparr> \<and>
   main (\<lambda>i. CHR ''?'') (\<lambda>i. CHR ''?'') \<lparr>stdin = ''hi'' @ [newline], stdout = []\<rparr> =
     Inr (0, \<lparr>stdin = [], stdout = ''Enter data: Copied: hi'' @ [newline, newline]\<rparr>)"
proof -
  let ?w = "\<lparr>stdin = ''hi'' @ [newline], stdout = []\<rparr>"
  have a: "stdin ?w \<noteq> []" by simp
  have b: "length (stdin ?w) < 64" by simp
  have r: "read_line 255 [CHR ''h'', CHR ''i'', newline] = [CHR ''h'', CHR ''i'', newline]"
    by code_simp
  note t = main_determined_by_stdin [OF a b,
      of "\<lambda>i. CHR ''?''" "\<lambda>i. CHR ''?''" "\<lambda>i. CHR ''!''" "\<lambda>i. NUL"]
  from t have "main (\<lambda>i. CHR ''?'') (\<lambda>i. CHR ''?'') ?w =
      Inr (0, \<lparr>stdin = drop (length (read_line 255 (stdin ?w))) (stdin ?w),
               stdout = stdout ?w @ ''Enter data: '' @ ''Copied: '' @
                 c_str (read_line 255 (stdin ?w)) @ [newline]\<rparr>)"
    by (rule conjunct2)
  then have e2: "main (\<lambda>i. CHR ''?'') (\<lambda>i. CHR ''?'') ?w =
      Inr (0, \<lparr>stdin = [], stdout = ''Enter data: Copied: hi'' @ [newline, newline]\<rparr>)"
    by (simp add: r c_str_def)
  from t have e1: "main (\<lambda>i. CHR ''!'') (\<lambda>i. NUL) ?w = main (\<lambda>i. CHR ''?'') (\<lambda>i. CHR ''?'') ?w"
    by simp
  show ?thesis
    unfolding e1 e2 using a b by simp
qed

text \<open>
  C10. \<open>main\<close> does not look at what the read returns. At end of file \<open>fgets\<close> returns
  a null pointer and leaves \<open>input\<close> as it was, and \<open>main\<close> still runs
  \<open>copy_user_input\<close> on it: the copy and the echo work on the indeterminate bytes of
  the array, and when these hold a zero byte among the first 64 the line echoed is made
  of them.
\<close>

theorem main_ignores_end_of_file:
  assumes "stdin w = []"
  shows "fgets (auto_array 256 junk_input) (length (auto_array 256 junk_input))
       (printf_lit ''Enter data: '' w) =
       Inr (False, auto_array 256 junk_input, printf_lit ''Enter data: '' w) \<and>
     main junk_input junk_buffer w =
       (case copy_user_input junk_buffer (auto_array 256 junk_input)
               (printf_lit ''Enter data: '' w) of
          Inl e \<Rightarrow> Inl e
        | Inr w3 \<Rightarrow> Inr (0, w3)) \<and>
     (strlen (auto_array 256 junk_input) < 64 \<longrightarrow>
        main junk_input junk_buffer w =
          Inr (0, w\<lparr>stdout := stdout w @ ''Enter data: '' @ ''Copied: '' @
                    c_str (auto_array 256 junk_input) @ [newline]\<rparr>))"
proof (intro conjI impI)
  show "fgets (auto_array 256 junk_input) (length (auto_array 256 junk_input))
       (printf_lit ''Enter data: '' w) =
       Inr (False, auto_array 256 junk_input, printf_lit ''Enter data: '' w)"
    using assms by (simp add: fgets_in_bounds printf_lit_def)
  show "main junk_input junk_buffer w =
       (case copy_user_input junk_buffer (auto_array 256 junk_input)
               (printf_lit ''Enter data: '' w) of
          Inl e \<Rightarrow> Inl e
        | Inr w3 \<Rightarrow> Inr (0, w3))"
    using assms by (rule main_at_end_of_file)
  show "main junk_input junk_buffer w =
          Inr (0, w\<lparr>stdout := stdout w @ ''Enter data: '' @ ''Copied: '' @
                    c_str (auto_array 256 junk_input) @ [newline]\<rparr>)"
    if "strlen (auto_array 256 junk_input) < 64"
    using assms that by (rule main_at_end_of_file_echo)
qed

theorem main_ignores_end_of_file_witness:
  "stdin \<lparr>stdin = [], stdout = []\<rparr> = [] \<and>
   strlen (auto_array 256 (\<lambda>i. if i = 0 then CHR ''Z'' else NUL)) < 64 \<and>
   main (\<lambda>i. if i = 0 then CHR ''Z'' else NUL) (\<lambda>i. CHR ''?'') \<lparr>stdin = [], stdout = []\<rparr> =
     Inr (0, \<lparr>stdin = [], stdout = ''Enter data: Copied: Z'' @ [newline]\<rparr>)"
proof -
  let ?w = "\<lparr>stdin = [], stdout = []\<rparr>"
  let ?j = "\<lambda>i::nat. if i = 0 then CHR ''Z'' else NUL"
  have a: "stdin ?w = []" by simp
  have c: "c_str (auto_array 256 ?j) = ''Z''"
    by code_simp
  then have b: "strlen (auto_array 256 ?j) < 64"
    by (simp add: strlen_c_str)
  from b main_ignores_end_of_file [OF a, of ?j "\<lambda>i. CHR ''?''"]
  have "main ?j (\<lambda>i. CHR ''?'') ?w =
      Inr (0, ?w\<lparr>stdout := stdout ?w @ ''Enter data: '' @ ''Copied: '' @
                c_str (auto_array 256 ?j) @ [newline]\<rparr>)"
    by blast
  then show ?thesis
    using a b by (simp add: c)
qed

end
